theory Spec2Isabelle
  imports Main
begin

section \<open>Tilings of a 1 by N strip (python/tilings.py)\<close>

text \<open>
  A tiling is a Python tuple of ints, modelled as an \<open>int list\<close>: 1 is a tile of length
  one, 2 and 3 are the two halves of a tile of length two. Python's ints are unbounded,
  so counts and arguments are \<open>int\<close>. The \<open>lru_cache\<close> decorators only memoise pure
  functions and are left out of the model.
\<close>

subsection \<open>The validator\<close>

text \<open>
  The body of \<open>for i, tile in enumerate(tiling)\<close>: the list of (index, tile) pairs still to
  visit is the second argument; the whole tiling stays in scope for the look-ahead and the
  look-behind. Both index reads are guarded by the range test of the source.
\<close>

fun is_valid_loop :: "int list \<Rightarrow> (nat \<times> int) list \<Rightarrow> bool" where
  "is_valid_loop tiling [] = True"
| "is_valid_loop tiling ((i, tile) # rest) =
     (if tile = 1 then is_valid_loop tiling rest
      else if tile = 2 then
        (if int i < int (length tiling) - 1 \<and> tiling ! (i + 1) = 3
         then is_valid_loop tiling rest else False)
      else if tile = 3 then
        (if 0 < i \<and> tiling ! (i - 1) = 2
         then is_valid_loop tiling rest else False)
      else False)"

text \<open>\<open>twos\<close> is the optional argument: \<open>None\<close> when it is not given.\<close>

definition is_valid :: "int list \<Rightarrow> int option \<Rightarrow> bool" where
  "is_valid tiling twos =
     (if (case twos of None \<Rightarrow> False | Some k \<Rightarrow> int (count_list tiling 2) \<noteq> k)
      then False
      else is_valid_loop tiling (enumerate 0 tiling))"

subsection \<open>The brute-force enumerator\<close>

datatype error = ValueError

text \<open>
  \<open>itertools.product(pool, repeat=n)\<close>: all tuples of length \<open>n\<close> over the pool, in
  lexicographic order (the last position varies fastest). A negative \<open>repeat\<close> raises
  ValueError; that test is made by the caller below, which has the int.
\<close>

fun product_repeat :: "'a list \<Rightarrow> nat \<Rightarrow> 'a list list" where
  "product_repeat pool 0 = [[]]"
| "product_repeat pool (Suc n) =
     concat (map (\<lambda>x. map ((#) x) (product_repeat pool n)) pool)"

definition brute_all_tilings :: "int \<Rightarrow> error + int list list" where
  "brute_all_tilings cols =
     (if cols < 0 then Inl ValueError
      else Inr (filter (\<lambda>x. is_valid x None) (product_repeat [1, 2, 3] (nat cols))))"

definition brute_num_tilings :: "int \<Rightarrow> error + int" where
  "brute_num_tilings cols =
     (case brute_all_tilings cols of
        Inl e \<Rightarrow> Inl e
      | Inr tilings \<Rightarrow> Inr (int (length tilings)))"

definition brute_partial_num_tilings :: "int \<Rightarrow> int \<Rightarrow> error + int" where
  "brute_partial_num_tilings twos cols =
     (case brute_all_tilings cols of
        Inl e \<Rightarrow> Inl e
      | Inr tilings \<Rightarrow> Inr (int (length (filter (\<lambda>x. is_valid x (Some twos)) tilings))))"

subsection \<open>The recurrence counter\<close>

text \<open>
  Modelled from the spec: \<open>comb\<close> is \<open>scipy.special.comb\<close>, imported from a library
  whose source is not part of the source tree. The spec gives it as the binomial
  coefficient with the conventions C(n, k) = 0 for \<open>k > n\<close>, \<open>k < 0\<close> or \<open>n < 0\<close>, which
  is the library's documented contract. The library computes it in double precision and
  the source truncates the result with \<open>int(...)\<close>; the model is the exact integer, which
  is what the source obtains as long as the coefficient is below \<open>2 ^ 53\<close>.
\<close>

definition comb :: "int \<Rightarrow> int \<Rightarrow> int" where
  "comb N k = (if k \<le> N \<and> 0 \<le> N \<and> 0 \<le> k then int (nat N choose nat k) else 0)"

function partial_num_tilings :: "int \<Rightarrow> int \<Rightarrow> int" where
  "partial_num_tilings twos cols =
     (if twos \<le> 1 \<or> cols \<le> 1 then comb (cols - 1) twos
      else partial_num_tilings (twos - 1) (cols - 2)
         + partial_num_tilings twos (cols - 2)
         + partial_num_tilings (twos - 1) (cols - 3))"
  by pat_completeness auto
termination
  by (relation "measure (\<lambda>(twos, cols). nat cols)") auto

declare partial_num_tilings.simps [simp del]

subsection \<open>The aggregator\<close>

text \<open>
  \<open>range(cols//2+1)\<close> is the list of ints from 0 to \<open>cols div 2\<close> (Python's \<open>//\<close> and HOL's
  \<open>div\<close> on \<open>int\<close> both round down); it is empty when \<open>cols div 2\<close> is negative.
\<close>

definition num_tilings :: "int \<Rightarrow> int" where
  "num_tilings cols = sum_list (map (\<lambda>twos. partial_num_tilings twos cols) [0..cols div 2])"

subsection \<open>The binomial coefficient as the spec words it\<close>

text \<open>
  The spec's closed form for the base case: the binomial coefficient C(n, k) by factorials,
  under the conventions C(n, k) = 0 when \<open>k > n\<close>, \<open>k < 0\<close> or \<open>n < 0\<close>. It is used only to
  state the base-case property; the counter itself calls \<open>comb\<close>.
\<close>

definition binomial_coefficient :: "int \<Rightarrow> int \<Rightarrow> int" where
  "binomial_coefficient n k =
     (if k > n \<or> k < 0 \<or> n < 0 then 0
      else int (fact (nat n) div (fact (nat k) * fact (nat n - nat k))))"

subsection \<open>Validity as the spec words it\<close>

text \<open>
  The position \<open>i\<close> of \<open>t\<close> is in order: its element is one of 1, 2, 3; a 2 is immediately
  followed by a 3; a 3 is immediately preceded by a 2.
\<close>

definition tile_ok :: "int list \<Rightarrow> nat \<Rightarrow> bool" where
  "tile_ok t i =
     (t ! i \<in> {1, 2, 3}
      \<and> (t ! i = 2 \<longrightarrow> i + 1 < length t \<and> t ! (i + 1) = 3)
      \<and> (t ! i = 3 \<longrightarrow> 0 < i \<and> t ! (i - 1) = 2))"

text \<open>
  The spec's notion of a valid tiling: every position is in order and, when an expected
  count \<open>k\<close> is given, the number of 2s is \<open>k\<close>.
\<close>

definition valid_spec :: "int list \<Rightarrow> int option \<Rightarrow> bool" where
  "valid_spec t k =
     ((\<forall>i < length t. tile_ok t i)
      \<and> (case k of None \<Rightarrow> True | Some n \<Rightarrow> int (count_list t 2) = n))"

text \<open>
  A structural reading of the same condition, used in the proofs: a tiling is a sequence of
  blocks, each either a single 1 or a 2 followed by a 3.
\<close>

fun paired :: "int list \<Rightarrow> bool" where
  "paired [] = True"
| "paired [x] = (x = 1)"
| "paired (x # y # zs) =
     (if x = 1 then paired (y # zs) else if x = 2 then y = 3 \<and> paired zs else False)"

subsection \<open>The brute-force count, unfolded\<close>

text \<open>
  What \<open>brute_partial_num_tilings\<close> computes for a non-negative length \<open>n\<close>, with the two
  filters merged and validity read structurally; used in the proofs.
\<close>

definition brute_count :: "int \<Rightarrow> nat \<Rightarrow> int" where
  "brute_count K n =
     int (length (filter (\<lambda>x. paired x \<and> int (count_list x 2) = K) (product_repeat [1, 2, 3] n)))"

section \<open>The validator\<close>

subsection \<open>The loop checks every position\<close>

lemma is_valid_loop_iff:
  "is_valid_loop t ps \<longleftrightarrow>
     (\<forall>p \<in> set ps.
        snd p \<in> {1, 2, 3}
        \<and> (snd p = 2 \<longrightarrow> fst p + 1 < length t \<and> t ! (fst p + 1) = 3)
        \<and> (snd p = 3 \<longrightarrow> 0 < fst p \<and> t ! (fst p - 1) = 2))"
proof (induction ps)
  case Nil
  show ?case by simp
next
  case (Cons p ps)
  obtain i tile where p: "p = (i, tile)" by (cases p)
  show ?case
    unfolding p using Cons.IH by (simp del: One_nat_def) linarith
qed

lemma ball_enumerate:
  "(\<forall>p \<in> set (enumerate 0 t). Q p) \<longleftrightarrow> (\<forall>i < length t. Q (i, t ! i))"
proof -
  have "set (enumerate 0 t) = (\<lambda>i. (i, t ! i)) ` {..<length t}"
    by (auto simp: in_set_enumerate_eq image_iff)
  then show ?thesis by auto
qed

lemma is_valid_loop_enumerate:
  "is_valid_loop t (enumerate 0 t) \<longleftrightarrow> (\<forall>i < length t. tile_ok t i)"
  unfolding is_valid_loop_iff ball_enumerate tile_ok_def by simp

text \<open>
  Claim C8. \<open>is_valid(t, k)\<close> is true if and only if every element of \<open>t\<close> is 1, 2 or 3,
  every 2 is immediately followed by a 3, every 3 is immediately preceded by a 2, and,
  when \<open>k\<close> is given, the number of 2s in \<open>t\<close> is \<open>k\<close>. So the empty sequence without \<open>k\<close> is
  valid, and a foreign symbol or a count that differs from \<open>k\<close> gives false.
\<close>

theorem is_valid_iff_valid_spec: "is_valid t k \<longleftrightarrow> valid_spec t k"
  by (cases k) (simp_all add: is_valid_def valid_spec_def is_valid_loop_enumerate)

theorem is_valid_iff_valid_spec_witness:
  "is_valid [1, 2, 3] (Some 1) \<and> valid_spec [1, 2, 3] (Some 1)
   \<and> \<not> is_valid [2, 1] None \<and> \<not> valid_spec [2, 1] None
   \<and> \<not> is_valid [1, 4] None \<and> \<not> valid_spec [1, 4] None
   \<and> \<not> is_valid [1, 2, 3] (Some 2) \<and> \<not> valid_spec [1, 2, 3] (Some 2)
   \<and> is_valid [] None \<and> valid_spec [] None"
  using is_valid_iff_valid_spec [of "[1, 2, 3]" "Some 1"]
    is_valid_iff_valid_spec [of "[2, 1]" None]
    is_valid_iff_valid_spec [of "[1, 4]" None]
    is_valid_iff_valid_spec [of "[1, 2, 3]" "Some 2"]
    is_valid_iff_valid_spec [of "[]" None]
  by (simp add: is_valid_def enumerate_eq_zip upt_rec)

subsection \<open>Valid tilings are sequences of blocks\<close>

lemma tile_ok_0: "tile_ok (x # xs) 0 \<longleftrightarrow> x = 1 \<or> (x = 2 \<and> xs \<noteq> [] \<and> xs ! 0 = 3)"
  by (auto simp: tile_ok_def)

lemma tile_ok_Suc_Suc:
  "tile_ok (x # xs) (Suc (Suc i)) \<longleftrightarrow> tile_ok xs (Suc i)"
  by (simp add: tile_ok_def)

lemma tile_ok_Suc_0:
  "tile_ok (x # xs) (Suc 0) \<longleftrightarrow>
     xs ! 0 = 1 \<or> (xs ! 0 = 2 \<and> Suc 0 < length xs \<and> xs ! Suc 0 = 3) \<or> (xs ! 0 = 3 \<and> x = 2)"
  by (auto simp: tile_ok_def)

lemma all_less_Suc_shift:
  "(\<forall>i < Suc n. P i) \<longleftrightarrow> P 0 \<and> (\<forall>i < n. P (Suc i))"
  by (auto simp: less_Suc_eq_0_disj)

text \<open>Dropping a head that is not a 2 leaves the condition on the later positions as it is.\<close>

lemma all_tiles_shift:
  assumes "x \<noteq> 2"
  shows "(\<forall>i < length xs. tile_ok (x # xs) (Suc i)) \<longleftrightarrow> (\<forall>i < length xs. tile_ok xs i)"
proof (cases xs)
  case Nil
  then show ?thesis by simp
next
  case (Cons z zs)
  have "tile_ok (x # z # zs) (Suc 0) \<longleftrightarrow> tile_ok (z # zs) 0"
    using assms unfolding tile_ok_Suc_0 tile_ok_0 by (cases zs) auto
  then show ?thesis
    unfolding Cons by (simp add: all_less_Suc_shift tile_ok_Suc_Suc del: One_nat_def)
qed

lemma all_tiles_unit:
  "(\<forall>i < length (1 # xs). tile_ok (1 # xs) i) \<longleftrightarrow> (\<forall>i < length xs. tile_ok xs i)"
  using all_tiles_shift [of 1 xs] by (simp add: all_less_Suc_shift tile_ok_0 del: One_nat_def)

lemma all_tiles_pair:
  "(\<forall>i < length (2 # 3 # xs). tile_ok (2 # 3 # xs) i) \<longleftrightarrow> (\<forall>i < length xs. tile_ok xs i)"
  using all_tiles_shift [of 3 xs]
  by (simp add: all_less_Suc_shift tile_ok_0 tile_ok_Suc_0 tile_ok_Suc_Suc del: One_nat_def)

lemma all_tiles_bad_head:
  "x \<noteq> 1 \<Longrightarrow> x \<noteq> 2 \<or> xs = [] \<or> hd xs \<noteq> 3 \<Longrightarrow>
   \<not> (\<forall>i < length (x # xs). tile_ok (x # xs) i)"
  by (cases xs) (auto simp: all_less_Suc_shift tile_ok_0 simp del: One_nat_def)

lemma all_tiles_paired: "(\<forall>i < length t. tile_ok t i) \<longleftrightarrow> paired t"
proof (induction t rule: paired.induct)
  case 1
  show ?case by simp
next
  case (2 x)
  show ?case by (simp add: tile_ok_0)
next
  case (3 x y zs)
  consider "x = 1" | "x = 2" "y = 3" | "x = 2" "y \<noteq> 3" | "x \<noteq> 1" "x \<noteq> 2" by blast
  then show ?case
  proof cases
    case 1
    then show ?thesis using "3.IH"(1) all_tiles_unit [of "y # zs"] by simp
  next
    case 2
    then show ?thesis using "3.IH"(2) all_tiles_pair [of zs] by simp
  next
    case 3
    then show ?thesis using all_tiles_bad_head [of x "y # zs"] by simp
  next
    case 4
    then show ?thesis using all_tiles_bad_head [of x "y # zs"] by simp
  qed
qed

lemma is_valid_paired: "is_valid t None \<longleftrightarrow> paired t"
  by (simp add: is_valid_def is_valid_loop_enumerate all_tiles_paired)

lemma is_valid_Some_paired: "is_valid t (Some k) \<longleftrightarrow> int (count_list t 2) = k \<and> paired t"
  by (simp add: is_valid_def is_valid_loop_enumerate all_tiles_paired)

lemma paired_count: "paired t \<Longrightarrow> count_list t 2 = count_list t 3"
  by (induction t rule: paired.induct) (auto split: if_splits)

text \<open>
  Claim C10. Every tuple that \<open>is_valid\<close> accepts without an expected count has as many 2s
  as 3s: each head of a length-two tile has exactly one tail, and each tail one head.
\<close>

theorem is_valid_heads_eq_tails:
  "is_valid t None \<Longrightarrow> count_list t 2 = count_list t 3"
  by (simp add: is_valid_paired paired_count)

theorem is_valid_heads_eq_tails_witness:
  "is_valid [2, 3, 1, 2, 3] None
   \<and> count_list [2, 3, 1, 2, 3 :: int] 2 = count_list [2, 3, 1, 2, 3 :: int] 3
   \<and> count_list [2, 3, 1, 2, 3 :: int] 2 = 2"
proof -
  have v: "is_valid [2, 3, 1, 2, 3] None"
    by (simp add: is_valid_def enumerate_eq_zip upt_rec)
  show ?thesis using v is_valid_heads_eq_tails [OF v] by simp
qed

section \<open>The recurrence counter\<close>

subsection \<open>Facts about \<open>comb\<close>\<close>

lemma comb_pascal:
  assumes "1 \<le> k"
  shows "comb n k = comb (n - 1) (k - 1) + comb (n - 1) k"
proof (cases "1 \<le> n")
  case True
  have "comb (int (Suc a)) (int (Suc b)) = comb (int a) (int b) + comb (int a) (int (Suc b))"
    for a b
    by (simp add: comb_def del: of_nat_Suc)
  from this [of "nat (n - 1)" "nat (k - 1)"] show ?thesis
    using True assms by simp
next
  case False
  then show ?thesis using assms by (simp add: comb_def)
qed

lemma comb_neg: "k < 0 \<Longrightarrow> comb n k = 0"
  by (simp add: comb_def)

lemma comb_gt: "n < k \<Longrightarrow> comb n k = 0"
  by (simp add: comb_def)

lemma comb_0: "comb n 0 = (if 0 \<le> n then 1 else 0)"
  by (simp add: comb_def)

lemma comb_binomial_coefficient: "comb n k = binomial_coefficient n k"
  by (auto simp: comb_def binomial_coefficient_def binomial_fact' nat_le_eq_zle)

subsection \<open>Unfolding the two branches\<close>

lemma partial_num_tilings_base:
  "twos \<le> 1 \<or> cols \<le> 1 \<Longrightarrow> partial_num_tilings twos cols = comb (cols - 1) twos"
  by (subst partial_num_tilings.simps) simp

lemma partial_num_tilings_step:
  "1 < twos \<Longrightarrow> 1 < cols \<Longrightarrow>
   partial_num_tilings twos cols =
     partial_num_tilings (twos - 1) (cols - 2)
     + partial_num_tilings twos (cols - 2)
     + partial_num_tilings (twos - 1) (cols - 3)"
  by (subst partial_num_tilings.simps) simp

subsection \<open>The closed form\<close>

text \<open>
  Away from the one pair (0, 0) the counter is "cols - twos choose twos", the number of
  ways to place \<open>twos\<close> tiles of length two among \<open>cols - twos\<close> tiles. At (0, 0) the base
  case asks for \<open>comb (-1) 0\<close>, which is 0.
\<close>

lemma partial_num_tilings_closed:
  "\<not> (twos = 0 \<and> cols = 0) \<Longrightarrow> partial_num_tilings twos cols = comb (cols - twos) twos"
proof (induction twos cols rule: partial_num_tilings.induct)
  case (1 twos cols)
  show ?case
  proof (cases "twos \<le> 1 \<or> cols \<le> 1")
    case True
    have "comb (cols - 1) twos = comb (cols - twos) twos"
    proof -
      consider "twos < 0" | "twos = 0" | "twos = 1" | "2 \<le> twos" "cols \<le> 1"
        using True by linarith
      then show ?thesis
      proof cases
        case 1 then show ?thesis by (simp add: comb_neg)
      next
        case 2 then show ?thesis using "1.prems" by (auto simp: comb_0)
      next
        case 3 then show ?thesis by simp
      next
        case 4 then show ?thesis by (simp add: comb_gt)
      qed
    qed
    then show ?thesis using True by (simp add: partial_num_tilings_base)
  next
    case False
    then have K: "1 < twos" and N: "1 < cols" by auto
    have a: "partial_num_tilings (twos - 1) (cols - 2) = comb (cols - twos - 1) (twos - 1)"
      using "1.IH"(1) [OF False] K by (simp add: algebra_simps)
    have b: "partial_num_tilings twos (cols - 2) = comb (cols - twos - 2) twos"
      using "1.IH"(2) [OF False] K by (simp add: algebra_simps)
    have c: "partial_num_tilings (twos - 1) (cols - 3) = comb (cols - twos - 2) (twos - 1)"
      using "1.IH"(3) [OF False] K by (simp add: algebra_simps)
    have "comb (cols - twos) twos
            = comb (cols - twos - 1) (twos - 1) + comb (cols - twos - 1) twos"
      using comb_pascal [of twos "cols - twos"] K by simp
    also have "comb (cols - twos - 1) twos
            = comb (cols - twos - 2) (twos - 1) + comb (cols - twos - 2) twos"
      using comb_pascal [of twos "cols - twos - 1"] K by (simp add: algebra_simps)
    finally show ?thesis
      using a b c K N by (simp add: partial_num_tilings_step)
  qed
qed

lemma partial_num_tilings_zero:
  "twos < 0 \<or> cols < 0 \<or> cols < 2 * twos \<Longrightarrow> partial_num_tilings twos cols = 0"
  by (cases "twos = 0 \<and> cols = 0")
     (auto simp: partial_num_tilings_closed comb_def partial_num_tilings_base)

subsection \<open>The recursive case\<close>

text \<open>
  Claim C4. For every number of length-two tiles \<open>K > 1\<close> and every length \<open>N > 1\<close>, the
  counter returns exactly the sum of its three sub-counts:
  \<open>partial_num_tilings(K, N) = partial_num_tilings(K-1, N-2) + partial_num_tilings(K, N-2)
  + partial_num_tilings(K-1, N-3)\<close>.
\<close>

theorem partial_num_tilings_recursive_case:
  "1 < K \<Longrightarrow> 1 < N \<Longrightarrow>
   partial_num_tilings K N =
     partial_num_tilings (K - 1) (N - 2) + partial_num_tilings K (N - 2)
     + partial_num_tilings (K - 1) (N - 3)"
  by (subst partial_num_tilings.simps) simp

theorem partial_num_tilings_recursive_case_witness:
  "(1::int) < 2 \<and> (1::int) < 4 \<and>
   partial_num_tilings 2 4 =
     partial_num_tilings 1 2 + partial_num_tilings 2 2 + partial_num_tilings 1 1"
  using partial_num_tilings_recursive_case [of 2 4] by simp

subsection \<open>The base case\<close>

text \<open>
  Claim C5. For every \<open>K\<close> and \<open>N\<close> with \<open>K \<le> 1\<close> or \<open>N \<le> 1\<close>, the counter returns the
  binomial coefficient C(N - 1, K) under the conventions C(n, k) = 0 when \<open>k > n\<close>,
  \<open>k < 0\<close> or \<open>n < 0\<close>.
\<close>

theorem partial_num_tilings_base_case:
  "K \<le> 1 \<or> N \<le> 1 \<Longrightarrow> partial_num_tilings K N = binomial_coefficient (N - 1) K"
  by (simp add: partial_num_tilings_base comb_binomial_coefficient)

theorem partial_num_tilings_base_case_witness:
  "((1::int) \<le> 1 \<or> (5::int) \<le> 1) \<and> partial_num_tilings 1 5 = binomial_coefficient 4 1
   \<and> binomial_coefficient 4 1 = 4"
  using partial_num_tilings_base_case [of 1 5]
  by (simp add: binomial_coefficient_def fact_numeral)

subsection \<open>Outside the natural domain\<close>

text \<open>
  Claim C6. For every pair of integers \<open>(K, N)\<close> with \<open>K < 0\<close> or \<open>N < 0\<close> or \<open>K > N\<close>, the
  counter returns 0. The counter is a total function (its recursion terminates on every
  pair of integers, by the termination proof above) and has no branch that raises.
\<close>

theorem partial_num_tilings_negative_domain:
  "K < 0 \<or> N < 0 \<or> N < K \<Longrightarrow> partial_num_tilings K N = 0"
  by (rule partial_num_tilings_zero) auto

theorem partial_num_tilings_negative_domain_witness:
  "((5::int) < 0 \<or> (3::int) < 0 \<or> (3::int) < 5) \<and> partial_num_tilings 5 3 = 0"
  using partial_num_tilings_negative_domain [of 5 3] by simp

text \<open>
  Claim C9. For every pair of non-negative integers \<open>(K, N)\<close> with \<open>2 * K > N\<close> the counter
  returns 0, so the sum of the aggregator, which stops at \<open>N div 2\<close>, leaves out no
  nonzero term.
\<close>

theorem partial_num_tilings_above_half:
  "0 \<le> K \<Longrightarrow> 0 \<le> N \<Longrightarrow> N < 2 * K \<Longrightarrow> partial_num_tilings K N = 0"
  by (rule partial_num_tilings_zero) auto

theorem partial_num_tilings_above_half_witness:
  "(0::int) \<le> 3 \<and> (0::int) \<le> 5 \<and> (5::int) < 2 * 3 \<and> partial_num_tilings 3 5 = 0"
  using partial_num_tilings_above_half [of 3 5] by simp

section \<open>The aggregator\<close>

lemma num_tilings_sum:
  "num_tilings N = (\<Sum>K \<in> {0..N div 2}. partial_num_tilings K N)"
  by (simp add: num_tilings_def sum_list_distinct_conv_sum_set)

text \<open>Summing over every count up to the length itself gives the same total.\<close>

lemma num_tilings_full_range:
  "num_tilings N = (\<Sum>K \<in> {0..N}. partial_num_tilings K N)"
proof (cases "0 \<le> N")
  case True
  have "(\<Sum>K \<in> {0..N}. partial_num_tilings K N) = (\<Sum>K \<in> {0..N div 2}. partial_num_tilings K N)"
  proof (rule sum.mono_neutral_right)
    show "finite {0..N}" by simp
    show "{0..N div 2} \<subseteq> {0..N}" using True by auto
    show "\<forall>K \<in> {0..N} - {0..N div 2}. partial_num_tilings K N = 0"
      by (auto intro!: partial_num_tilings_zero)
  qed
  then show ?thesis by (simp add: num_tilings_sum)
next
  case False
  then have "N div 2 < 0" by simp
  then show ?thesis using False by (simp add: num_tilings_sum)
qed

text \<open>
  Claim C7, as the spec states it: the known values are \<open>num_tilings(2) = 2\<close>,
  \<open>num_tilings(3) = 3\<close>, \<open>num_tilings(4) = 5\<close> and \<open>num_tilings(14) = 1220\<close>. The last value
  is not what the aggregator returns.
\<close>

theorem num_tilings_14_not_1220: "num_tilings 14 \<noteq> 1220"
  by code_simp

text \<open>
  Claim C7, amended: \<open>num_tilings(2) = 2\<close>, \<open>num_tilings(3) = 3\<close>, \<open>num_tilings(4) = 5\<close> and
  \<open>num_tilings(14) = 610\<close>, the fifteenth Fibonacci number.
\<close>

theorem num_tilings_known_values:
  "num_tilings 2 = 2 \<and> num_tilings 3 = 3 \<and> num_tilings 4 = 5 \<and> num_tilings 14 = 610"
  by code_simp

lemma partial_num_tilings_no_twos: "1 \<le> N \<Longrightarrow> partial_num_tilings 0 N = 1"
  by (simp add: partial_num_tilings_base comb_0)

text \<open>
  Claim C3 states the boundary values \<open>num_tilings(0) = 1\<close>, \<open>num_tilings(1) = 1\<close> and
  \<open>partial_num_tilings(0, N) = 1\<close> for every \<open>N \<ge> 0\<close>. At length 0 the base case evaluates
  \<open>comb (-1) 0 = 0\<close>, so both the counter and the aggregator return 0 there, although the
  empty tiling is valid; the remaining boundary values hold.
\<close>

theorem boundary_values_at_zero:
  "partial_num_tilings 0 0 = 0 \<and> num_tilings 0 = 0 \<and> is_valid [] None
   \<and> num_tilings 1 = 1"
  by code_simp

section \<open>The brute-force enumerator against the recurrence\<close>

subsection \<open>A recurrence for the brute-force count\<close>

lemma paired_unit [simp]: "paired (1 # ys) = paired ys"
  by (cases ys) simp_all

lemma paired_tail [simp]: "paired (3 # ys) = False"
  by (cases ys) simp_all

lemma paired_head_unit [simp]: "paired (2 # 1 # ys) = False"
  by simp

lemma paired_head_pair [simp]: "paired (2 # 3 # ys) = paired ys"
  by simp

lemma product_repeat_3:
  "product_repeat [1, 2, 3 :: int] (Suc n) =
     map ((#) 1) (product_repeat [1, 2, 3] n)
     @ map ((#) 2) (product_repeat [1, 2, 3] n)
     @ map ((#) 3) (product_repeat [1, 2, 3] n)"
  by simp

lemma brute_partial_num_tilings_count:
  "brute_partial_num_tilings K N =
     (if N < 0 then Inl ValueError else Inr (brute_count K (nat N)))"
proof -
  have "(\<lambda>x. is_valid x None \<and> is_valid x (Some K)) = (\<lambda>x. paired x \<and> int (count_list x 2) = K)"
    by (auto simp: is_valid_paired is_valid_Some_paired)
  then show ?thesis
    by (simp add: brute_partial_num_tilings_def brute_all_tilings_def brute_count_def)
qed

lemma brute_count_0: "brute_count K 0 = (if K = 0 then 1 else 0)"
  by (simp add: brute_count_def)

lemma brute_count_1: "brute_count K (Suc 0) = (if K = 0 then 1 else 0)"
  by (simp add: brute_count_def)

lemma count_head:
  "length (filter (\<lambda>ys. paired (2 # ys) \<and> int (count_list (2 # ys) 2) = K)
             (product_repeat [1, 2, 3] (Suc n)))
   = length (filter (\<lambda>zs. paired zs \<and> int (count_list zs 2) = K - 1)
             (product_repeat [1, 2, 3] n))"
proof -
  have "(\<lambda>zs. paired zs \<and> 1 + int (count_list zs 2) = K) = (\<lambda>zs. paired zs \<and> int (count_list zs 2) = K - 1)"
    by auto
  then show ?thesis
    unfolding product_repeat_3 by (simp add: filter_map comp_def)
qed

lemma brute_count_step:
  "brute_count K (Suc (Suc n)) = brute_count K (Suc n) + brute_count (K - 1) n"
proof -
  let ?P = "product_repeat [1, 2, 3 :: int] (Suc n)"
  have "brute_count K (Suc (Suc n)) =
          int (length (filter (\<lambda>ys. paired ys \<and> int (count_list ys 2) = K) ?P))
        + int (length (filter (\<lambda>ys. paired (2 # ys) \<and> int (count_list (2 # ys) 2) = K) ?P))"
    unfolding brute_count_def product_repeat_3 [of "Suc n"]
    by (simp add: filter_map comp_def del: product_repeat.simps)
  then show ?thesis
    unfolding count_head by (simp add: brute_count_def del: product_repeat.simps)
qed

subsection \<open>Both counters have the same closed form\<close>

lemma brute_count_closed: "brute_count K n = comb (int n - K) K"
proof (induction n arbitrary: K rule: less_induct)
  case (less n)
  consider "n = 0" | "n = Suc 0" | m where "n = Suc (Suc m)"
    by (cases n rule: nat.exhaust) (auto intro: nat.exhaust [of "n - 1"])
  then show ?case
  proof cases
    case 1
    then show ?thesis by (simp add: brute_count_0 comb_def)
  next
    case 2
    then show ?thesis by (simp add: brute_count_1 comb_def)
  next
    case 3
    have a: "brute_count K (Suc m) = comb (int m + 1 - K) K"
      using less.IH [of "Suc m" K] 3 by (simp add: algebra_simps)
    have b: "brute_count (K - 1) m = comb (int m + 1 - K) (K - 1)"
      using less.IH [of m "K - 1"] 3 by (simp add: algebra_simps)
    have "comb (int m + 2 - K) K = comb (int m + 1 - K) (K - 1) + comb (int m + 1 - K) K"
    proof (cases "1 \<le> K")
      case True
      then show ?thesis using comb_pascal [of K "int m + 2 - K"] by (simp add: algebra_simps)
    next
      case False
      then show ?thesis by (simp add: comb_def)
    qed
    then show ?thesis
      unfolding 3 brute_count_step a b by (simp add: algebra_simps)
  qed
qed

text \<open>
  From length 1 on, the two counters agree for every number of length-two tiles (not only
  up to length 16 and up to half the length).
\<close>

lemma brute_partial_eq_partial:
  "1 \<le> N \<Longrightarrow> brute_partial_num_tilings K N = Inr (partial_num_tilings K N)"
  by (simp add: brute_partial_num_tilings_count brute_count_closed partial_num_tilings_closed)

text \<open>
  Claim C1 states that \<open>partial_num_tilings(K, N) = brute_partial_num_tilings(K, N)\<close> for
  every \<open>0 \<le> N \<le> 16\<close> and \<open>0 \<le> K \<le> N div 2\<close>. At \<open>N = 0\<close>, \<open>K = 0\<close> the enumerator counts
  the empty tiling and returns 1, while the base case of the recurrence evaluates
  \<open>comb (-1) 0\<close> and returns 0.
\<close>

theorem partial_vs_brute_at_zero:
  "partial_num_tilings 0 0 = 0 \<and> brute_partial_num_tilings 0 0 = Inr 1"
  by code_simp

subsection \<open>The totals\<close>

lemma length_product_repeat:
  "xs \<in> set (product_repeat pool n) \<Longrightarrow> length xs = n"
  by (induction n arbitrary: xs) auto

lemma length_filter_partition:
  fixes f :: "'a \<Rightarrow> int"
  assumes "\<forall>x \<in> set xs. f x \<in> {0..m}"
  shows "int (length (filter P xs)) = (\<Sum>k \<in> {0..m}. int (length (filter (\<lambda>x. P x \<and> f x = k) xs)))"
  using assms
proof (induction xs)
  case Nil
  show ?case by simp
next
  case (Cons x xs)
  have IH: "int (length (filter P xs)) = (\<Sum>k \<in> {0..m}. int (length (filter (\<lambda>x. P x \<and> f x = k) xs)))"
    using Cons by simp
  have fx: "f x \<in> {0..m}" using Cons.prems by simp
  show ?case
  proof (cases "P x")
    case True
    have "(\<Sum>k \<in> {0..m}. int (length (filter (\<lambda>x. P x \<and> f x = k) (x # xs))))
        = (\<Sum>k \<in> {0..m}. int (length (filter (\<lambda>x. P x \<and> f x = k) xs)) + (if f x = k then 1 else 0))"
      using True by (intro sum.cong) auto
    also have "\<dots> = (\<Sum>k \<in> {0..m}. int (length (filter (\<lambda>x. P x \<and> f x = k) xs))) + 1"
      using fx by (simp add: sum.distrib)
    finally show ?thesis using True IH by simp
  next
    case False
    then show ?thesis using IH by simp
  qed
qed


lemma brute_total_sum:
  "int (length (filter paired (product_repeat [1, 2, 3] n)))
     = (\<Sum>K \<in> {0..int n}. brute_count K n)"
proof -
  have "\<forall>x \<in> set (product_repeat [1, 2, 3 :: int] n). int (count_list x 2) \<in> {0..int n}"
    using count_le_length [of _ "2 :: int"] by (auto dest!: length_product_repeat)
  from length_filter_partition [OF this, of paired] show ?thesis
    by (simp add: brute_count_def)
qed

lemma brute_total_half:
  "(\<Sum>K \<in> {0..int n}. brute_count K n) = (\<Sum>K \<in> {0..int n div 2}. brute_count K n)"
proof (rule sum.mono_neutral_right)
  show "finite {0..int n}" by simp
  show "{0..int n div 2} \<subseteq> {0..int n}" by auto
  show "\<forall>K \<in> {0..int n} - {0..int n div 2}. brute_count K n = 0"
    by (auto simp: brute_count_closed comb_def)
qed

lemma brute_num_eq_num:
  assumes "1 \<le> N"
  shows "brute_num_tilings N = Inr (num_tilings N)"
proof -
  have "(\<Sum>K \<in> {0..N div 2}. partial_num_tilings K N) = (\<Sum>K \<in> {0..N div 2}. brute_count K (nat N))"
    using assms by (intro sum.cong) (simp_all add: brute_count_closed partial_num_tilings_closed)
  moreover have "(\<lambda>x. is_valid x None) = paired"
    by (simp add: is_valid_paired fun_eq_iff)
  ultimately show ?thesis
    using assms brute_total_sum [of "nat N"] brute_total_half [of "nat N"]
    by (simp add: brute_num_tilings_def brute_all_tilings_def num_tilings_sum)
qed

text \<open>
  Claim C2 states that \<open>num_tilings(N) = brute_num_tilings(N)\<close> for every \<open>0 \<le> N \<le> 16\<close>.
  At \<open>N = 0\<close> the enumerator returns 1 (the empty tiling) and the aggregator returns 0, its
  only term being \<open>partial_num_tilings(0, 0)\<close>.
\<close>

theorem num_vs_brute_at_zero:
  "num_tilings 0 = 0 \<and> brute_num_tilings 0 = Inr 1"
  by code_simp

end
